theory Spec2Isabelle
  imports Main "HOL-Library.Word" "HOL-Library.Multiset" "HOL-Library.AList"
begin

unbundle bit_operations_syntax

section \<open>Machine integers\<close>

text \<open>
  The server is C++ on a 64-bit host: \<open>int16_t\<close>, \<open>uint32_t\<close>, \<open>int64_t\<close> and
  \<open>uint64_t\<close> are words of that width, read with \<open>sint\<close> or \<open>unat\<close>. A
  \<open>std::string\<close> is a list of bytes, and so is every buffer that goes through the
  socket; the byte with value 0 is \<open>CHR 0x00\<close>.
\<close>

type_synonym int16 = "16 word"
type_synonym int64 = "64 word"
type_synonym uint32 = "32 word"
type_synonym uint64 = "64 word"

section \<open>Saturating sum of squares\<close>

text \<open>
  \<open>Server::calculateSumOfSquares\<close>. The loop has three ways out: the two clamping
  returns inside the body and the fall-through after the last element. \<open>sum_loop\<close> is
  the \<open>for\<close> loop, started with the current value of \<open>sum\<close>; it returns the way out
  that was taken together with the values \<open>sum\<close> held after each executed
  \<open>sum += square\<close>, in order.
\<close>

datatype loop_exit = ReturnMax | ReturnMin | LoopDone int64

fun sum_loop :: "int64 \<Rightarrow> int16 list \<Rightarrow> loop_exit \<times> int64 list" where
  "sum_loop s [] = (LoopDone s, [])"
| "sum_loop s (v # rest) =
     (let square = (scast v :: int64) * (scast v :: int64);
          sum' = s + square
      in if 32767 <s sum' then (ReturnMax, [sum'])
         else if sum' <s - 32768 then (ReturnMin, [sum'])
         else (case sum_loop sum' rest of (e, h) \<Rightarrow> (e, sum' # h)))"

definition calculateSumOfSquares :: "int16 list \<Rightarrow> int16" where
  "calculateSumOfSquares vec =
     (if vec = [] then 0
      else case fst (sum_loop 0 vec) of
             ReturnMax \<Rightarrow> 32767
           | ReturnMin \<Rightarrow> - 32768
           | LoopDone s \<Rightarrow> ucast s)"

section \<open>The server object and its environment\<close>

text \<open>
  The fields of \<open>class Server\<close>. The \<open>std::unordered_map\<close> of users is an
  association list with one entry per key, written with \<open>AList.update\<close> and read with
  \<open>map_of\<close>; its \<open>size()\<close> is the length of the list.
\<close>

record server =
  port :: int
  userDbPath :: string
  logPath :: string
  users :: "(string \<times> string) list"

definition Server :: "int \<Rightarrow> string \<Rightarrow> string \<Rightarrow> server" where
  "Server p db lg = \<lparr>port = p, userDbPath = db, logPath = lg, users = []\<rparr>"

text \<open>
  Every call the server makes on the connection is recorded, in program order, as an
  event that carries the place of the call in the source:
  \<^item> \<open>Login\<close>, \<open>Response\<close>: the two \<open>recv\<close> calls of \<open>authenticate\<close>;
  \<^item> \<open>ErrIdent\<close>, \<open>Salt\<close>, \<open>Ok\<close>, \<open>ErrAuth\<close>: its four \<open>send\<close> calls;
  \<^item> \<open>Count\<close>: the \<open>recv\<close> of \<open>numVectors\<close> in \<open>processVectors\<close>;
  \<^item> \<open>Size i\<close>, \<open>Payload i\<close>, \<open>Result i\<close>: the \<open>recv\<close> of \<open>vectorSize\<close>, the
    \<open>recv\<close> calls of the element loop and the \<open>send\<close> of the result, in the
    iteration with loop counter \<open>i\<close>.
  \<open>FindEv\<close> is the call \<open>users.find(login)\<close> with its key, \<open>SaltEv\<close> a call of
  \<open>generateSalt\<close> with the string it returned, \<open>CloseEv\<close> the \<open>close\<close> of the socket.
\<close>

datatype tag =
    Login | Response | Count | Size nat | Payload nat
  | ErrIdent | Salt | Ok | ErrAuth | Result nat

datatype event =
    RecvEv tag int string
  | SendEv tag string int
  | FindEv string
  | SaltEv string
  | CloseEv

text \<open>
  What the peer and the operating system do is data of the model:
  \<^item> \<open>files\<close>: the text files that can be opened for reading, as their lines;
  \<^item> \<open>logs\<close>: the files that can be opened for appending, as the lines written so far
    (a line is the level and the message; the time stamp is left out);
  \<^item> \<open>evp_sha224\<close>: the digest the EVP interface of OpenSSL computes, \<open>None\<close> when one
    of its calls reports a failure;
  \<^item> \<open>rnd\<close>: the values the random generator of \<open>generateSalt\<close> will draw;
  \<^item> \<open>rx\<close>: what arrives on the socket, as the chunks the next \<open>recv\<close> calls find
    (\<open>Fail\<close>: the call returns \<open>-1\<close>; no chunk left: the peer has closed, the call
    returns 0);
  \<^item> \<open>tx\<close>: how many bytes the next \<open>send\<close> calls accept (negative: the call returns
    \<open>-1\<close>; no entry left: everything is accepted);
  \<^item> \<open>trace\<close>: the events so far.
  The \<open>DEBUG\<close> lines printed on the console are left out.
\<close>

datatype rx_item = Data string | Fail

record world =
  files :: "string \<Rightarrow> string list option"
  logs :: "string \<Rightarrow> (string \<times> string) list option"
  evp_sha224 :: "string \<Rightarrow> string option"
  rnd :: "uint64 list"
  rx :: "rx_item list"
  tx :: "int list"
  trace :: "event list"

text \<open>
  \<open>recv(socket, buf, n, 0)\<close> at the place \<open>t\<close>: the return value and the bytes stored
  in the buffer. A chunk longer than \<open>n\<close> is delivered in part, and its rest stays for
  the next call.
\<close>

definition recv :: "tag \<Rightarrow> nat \<Rightarrow> world \<Rightarrow> (int \<times> string) \<times> world" where
  "recv t n w =
     (case rx w of
        [] \<Rightarrow> ((0, []), w\<lparr>trace := trace w @ [RecvEv t 0 []]\<rparr>)
      | Fail # rest \<Rightarrow> ((- 1, []), w\<lparr>rx := rest, trace := trace w @ [RecvEv t (- 1) []]\<rparr>)
      | Data bs # rest \<Rightarrow>
          if length bs \<le> n
          then ((int (length bs), bs),
                w\<lparr>rx := rest, trace := trace w @ [RecvEv t (int (length bs)) bs]\<rparr>)
          else ((int n, take n bs),
                w\<lparr>rx := Data (drop n bs) # rest,
                  trace := trace w @ [RecvEv t (int n) (take n bs)]\<rparr>))"

text \<open>\<open>send(socket, payload, length payload, 0)\<close> at the place \<open>t\<close>, with its return value.\<close>

definition send :: "tag \<Rightarrow> string \<Rightarrow> world \<Rightarrow> int \<times> world" where
  "send t payload w =
     (case tx w of
        [] \<Rightarrow> (int (length payload),
               w\<lparr>trace := trace w @ [SendEv t payload (int (length payload))]\<rparr>)
      | r # rest \<Rightarrow>
          (let ret = (if r < 0 then - 1 else min r (int (length payload)))
           in (ret, w\<lparr>tx := rest, trace := trace w @ [SendEv t payload ret]\<rparr>)))"

definition close :: "world \<Rightarrow> world" where
  "close w = w\<lparr>trace := trace w @ [CloseEv]\<rparr>"

section \<open>Logging\<close>

text \<open>
  \<open>Server::logError\<close>: appends one line to the file at \<open>logPath\<close>, and does nothing when
  that file cannot be opened.
\<close>

definition logError :: "server \<Rightarrow> string \<Rightarrow> bool \<Rightarrow> world \<Rightarrow> world" where
  "logError srv message isCritical w =
     (case logs w (logPath srv) of
        None \<Rightarrow> w
      | Some lines \<Rightarrow>
          w\<lparr>logs := (logs w)(logPath srv \<mapsto>
               lines @ [(if isCritical then ''CRITICAL'' else ''NON-CRITICAL'', message)])\<rparr>)"

section \<open>Loading the credentials\<close>

text \<open>
  \<open>line.find(':')\<close>: the position of the first occurrence, \<open>None\<close> for \<open>npos\<close>.
\<close>

definition find_char :: "char \<Rightarrow> string \<Rightarrow> nat option" where
  "find_char c s = (if c \<in> set s then Some (length (takeWhile (\<lambda>x. x \<noteq> c) s)) else None)"

text \<open>
  The body of the \<open>while (std::getline(file, line))\<close> loop of
  \<open>Server::loadUserDatabase\<close>, in two steps: \<open>parse_line\<close> is the two nested \<open>if\<close>s and
  yields the pair that is stored, \<open>store_line\<close> is the assignment
  \<open>users[login] = password\<close>. The source computes \<open>line.length() - 1\<close> on \<open>size_t\<close>;
  where that is evaluated \<open>find\<close> has succeeded, so the line is not empty and the
  subtraction does not wrap.
\<close>

definition parse_line :: "string \<Rightarrow> (string \<times> string) option" where
  "parse_line line =
     (case find_char CHR '':'' line of
        None \<Rightarrow> None
      | Some pos \<Rightarrow>
          if pos > 0 \<and> pos < length line - 1
          then (let login = take pos line;
                    password = drop (pos + 1) line
                in if login \<noteq> [] \<and> password \<noteq> [] then Some (login, password) else None)
          else None)"

definition store_line :: "string \<Rightarrow> (string \<times> string) list \<Rightarrow> (string \<times> string) list" where
  "store_line line us =
     (case parse_line line of
        None \<Rightarrow> us
      | Some (login, password) \<Rightarrow> AList.update login password us)"

definition loadUserDatabase :: "server \<Rightarrow> world \<Rightarrow> server \<times> world" where
  "loadUserDatabase srv w =
     (case files w (userDbPath srv) of
        None \<Rightarrow>
          (srv, logError srv (''Cannot open user database file: '' @ userDbPath srv) True w)
      | Some lines \<Rightarrow> (srv\<lparr>users := fold store_line lines (users srv)\<rparr>, w))"

section \<open>Hash and salt\<close>

text \<open>
  \<open>std::toupper\<close> in the C locale, and the two hexadecimal digits the stream prints for a
  byte under \<open>std::hex\<close>, \<open>std::setfill('0')\<close> and \<open>std::setw(2)\<close>.
\<close>

definition toupper :: "char \<Rightarrow> char" where
  "toupper c =
     (let n = (of_char c :: nat) in if 97 \<le> n \<and> n \<le> 122 then char_of (n - 32) else c)"

definition hex_digit :: "nat \<Rightarrow> char" where
  "hex_digit n = ''0123456789abcdef'' ! n"

definition hex_byte :: "char \<Rightarrow> string" where
  "hex_byte b = [hex_digit (of_char b div 16), hex_digit (of_char b mod 16)]"

text \<open>
  \<open>Server::sha224Hash\<close>: the empty string when the EVP interface fails, else the digest
  in upper-case hexadecimal.
\<close>

definition sha224Hash :: "world \<Rightarrow> string \<Rightarrow> string" where
  "sha224Hash w input =
     (case evp_sha224 w input of
        None \<Rightarrow> []
      | Some digest \<Rightarrow> map toupper (concat (map hex_byte digest)))"

text \<open>
  A \<open>uint64_t\<close> printed under \<open>std::hex\<close>, \<open>std::setfill('0')\<close> and \<open>std::setw(16)\<close>: its
  sixteen nibbles, the most significant first.
\<close>

definition hex16 :: "uint64 \<Rightarrow> string" where
  "hex16 v = map (\<lambda>k. hex_digit (unat (drop_bit (4 * k) v AND 15))) (rev [0..<16])"

definition generateSalt :: "world \<Rightarrow> string \<times> world" where
  "generateSalt w =
     (let saltValue = (case rnd w of [] \<Rightarrow> 0 | r # _ \<Rightarrow> r);
          salt = map toupper (hex16 saltValue)
      in (salt, w\<lparr>rnd := tl (rnd w), trace := trace w @ [SaltEv salt]\<rparr>))"

section \<open>The handshake\<close>

text \<open>
  \<open>buffer[bytesRead] = '\0'; std::string s(buffer);\<close> builds the string from a C string:
  the bytes of the buffer up to the first byte 0.
\<close>

definition c_str :: "string \<Rightarrow> string" where
  "c_str buffer = takeWhile (\<lambda>c. c \<noteq> CHR 0x00) buffer"

text \<open>\<open>users.find(login)\<close>: the stored secret, \<open>None\<close> for \<open>users.end()\<close>.\<close>

definition find_user :: "server \<Rightarrow> string \<Rightarrow> world \<Rightarrow> string option \<times> world" where
  "find_user srv login w = (map_of (users srv) login, w\<lparr>trace := trace w @ [FindEv login]\<rparr>)"

text \<open>
  \<open>Server::authenticate\<close>. The salt has sixteen characters, and \<open>send\<close> is called on
  \<open>salt.c_str()\<close> with the length 16.
\<close>

definition authenticate :: "server \<Rightarrow> world \<Rightarrow> bool \<times> world" where
  "authenticate srv w =
     (case recv Login 255 w of
        ((bytesRead, buffer), w1) \<Rightarrow>
          if bytesRead \<le> 0
          then (False, logError srv ''No data received from client for login'' False w1)
          else
            (let login = c_str buffer
             in case find_user srv login w1 of
                  (None, w2) \<Rightarrow>
                    (case send ErrIdent ''ERR'' w2 of
                       (_, w3) \<Rightarrow>
                         (False,
                          logError srv (''Identification failed for login: '' @ login)
                            False w3))
                | (Some password, w2) \<Rightarrow>
                    (case generateSalt w2 of
                       (salt, w3) \<Rightarrow>
                         (case send Salt (take 16 salt) w3 of
                            (sent, w4) \<Rightarrow>
                              if sent \<noteq> 16
                              then (False,
                                    logError srv ''Failed to send salt to client'' False w4)
                              else
                                (case recv Response 255 w4 of
                                   ((bytesRead2, buffer2), w5) \<Rightarrow>
                                     if bytesRead2 \<le> 0
                                     then (False,
                                           logError srv ''No hash received from client''
                                             False w5)
                                     else
                                       (let receivedHash = map toupper (c_str buffer2);
                                            computedHash = sha224Hash w5 (salt @ password)
                                        in if computedHash = receivedHash
                                           then (case send Ok ''OK'' w5 of
                                                   (_, w6) \<Rightarrow>
                                                     (True,
                                                      logError srv
                                                        (''Authentication successful for login: ''
                                                           @ login) False w6))
                                           else (case send ErrAuth ''ERR'' w5 of
                                                   (_, w6) \<Rightarrow>
                                                     (False,
                                                      logError srv
                                                        (''Authentication failed for login: ''
                                                           @ login) False w6))))))))"

section \<open>The vector exchange\<close>

text \<open>\<open>std::to_string\<close> on an integer.\<close>

function digits10 :: "nat \<Rightarrow> string" where
  "digits10 n =
     (if n < 10 then [char_of (48 + n)] else digits10 (n div 10) @ [char_of (48 + n mod 10)])"
  by pat_completeness auto
termination
  by (relation "measure id") auto

declare digits10.simps [simp del]

definition to_string :: "int \<Rightarrow> string" where
  "to_string i = (if i < 0 then CHR ''-'' # digits10 (nat (- i)) else digits10 (nat i))"

text \<open>
  The server stores the received bytes into \<open>uint32_t\<close> and \<open>int16_t\<close> objects and sends
  the bytes of the \<open>int16_t\<close> result, without any conversion; on the little-endian host
  the source names in its comments the first byte is the least significant one.
\<close>

definition le_uint32 :: "string \<Rightarrow> uint32" where
  "le_uint32 bs = word_of_nat (foldr (\<lambda>b acc. of_char b + 256 * acc) bs 0)"

fun le_int16s :: "string \<Rightarrow> int16 list" where
  "le_int16s (lo # hi # rest) = word_of_nat (of_char lo + 256 * of_char hi) # le_int16s rest"
| "le_int16s _ = []"

definition int16_bytes :: "int16 \<Rightarrow> string" where
  "int16_bytes r = [char_of (unat r), char_of (unat r div 256)]"

text \<open>
  The \<open>while (totalRead < totalBytesToRead)\<close> loop of \<open>Server::processVectors\<close> in the
  iteration \<open>i\<close> of the outer loop: \<open>buffer\<close> holds the \<open>totalRead\<close> bytes read so far.
  \<open>None\<close> is the \<open>return\<close> inside the loop.
\<close>

function read_payload ::
  "server \<Rightarrow> nat \<Rightarrow> nat \<Rightarrow> string \<Rightarrow> world \<Rightarrow> string option \<times> world" where
  "read_payload srv i totalBytesToRead buffer w =
     (if length buffer < totalBytesToRead
      then (case recv (Payload i) (totalBytesToRead - length buffer) w of
              ((bytesRead, bs), w1) \<Rightarrow>
                if bytesRead \<le> 0
                then (None, logError srv ''Failed to read vector data'' False w1)
                else read_payload srv i totalBytesToRead (buffer @ bs) w1)
      else (Some buffer, w))"
  by pat_completeness auto
termination
proof (relation "measure (\<lambda>(srv, i, total, buffer, w). total - length buffer)", goal_cases)
  case 1
  show ?case by simp
next
  case (2 srv i total buffer w x1 w1 bytesRead bs)
  then have "recv (Payload i) (total - length buffer) w = ((bytesRead, bs), w1)" "0 < bytesRead"
    by simp_all
  then have "length bs = nat bytesRead"
    by (auto simp: recv_def split: list.splits rx_item.splits if_splits)
  with 2 show ?case by simp
qed

declare read_payload.simps [simp del]

text \<open>
  The \<open>for (uint32_t i = 0; i < numVectors; ++i)\<close> loop of \<open>Server::processVectors\<close>,
  started at the counter \<open>i\<close>. The product \<open>vectorSize * sizeof(int16_t)\<close> is computed
  on \<open>size_t\<close>, 64 bits wide, and does not wrap. A \<open>std::vector\<close> that cannot be
  allocated is outside the model.
\<close>

function vector_loop :: "server \<Rightarrow> uint32 \<Rightarrow> uint32 \<Rightarrow> world \<Rightarrow> world" where
  "vector_loop srv numVectors i w =
     (if i < numVectors
      then (case recv (Size (unat i)) 4 w of
              ((bytesRead, bs), w1) \<Rightarrow>
                if bytesRead \<noteq> 4
                then logError srv ''Failed to read vector size'' False w1
                else
                  (let vectorSize = le_uint32 bs;
                       totalBytesToRead = unat vectorSize * 2
                   in case read_payload srv (unat i) totalBytesToRead [] w1 of
                        (None, w2) \<Rightarrow> w2
                      | (Some buffer, w2) \<Rightarrow>
                          (let result = calculateSumOfSquares (le_int16s buffer)
                           in case send (Result (unat i)) (int16_bytes result) w2 of
                                (bytesSent, w3) \<Rightarrow>
                                  if bytesSent \<noteq> 2
                                  then logError srv
                                         (''Failed to send result for vector ''
                                            @ to_string (uint (i + 1))) False w3
                                  else vector_loop srv numVectors (i + 1) w3)))
      else w)"
  by pat_completeness auto
termination
proof (relation "measure (\<lambda>(srv, numVectors, i, w). unat numVectors - unat i)", goal_cases)
  case 1
  show ?case by simp
next
  case (2 srv numVectors i w)
  then have "unat i < unat numVectors" by (simp add: word_less_nat_alt)
  moreover have "unat numVectors < 2 ^ 32"
    using unsigned_less [of numVectors, where ?'a = nat] by simp
  ultimately have "unat i + 1 < 2 ^ 32" by simp
  then have "unat (i + 1) = Suc (unat i)" by (simp add: unat_word_ariths)
  with \<open>unat i < unat numVectors\<close> show ?case by simp
qed

declare vector_loop.simps [simp del]

definition processVectors :: "server \<Rightarrow> world \<Rightarrow> world" where
  "processVectors srv w =
     (case recv Count 4 w of
        ((bytesRead, bs), w1) \<Rightarrow>
          if bytesRead \<noteq> 4
          then logError srv ''Failed to read number of vectors'' False w1
          else vector_loop srv (le_uint32 bs) 0 w1)"

section \<open>One connection, and the start of the server\<close>

definition handleClient :: "server \<Rightarrow> world \<Rightarrow> world" where
  "handleClient srv w =
     (let w1 = logError srv ''New client connection established'' False w
      in case authenticate srv w1 of
           (False, w2) \<Rightarrow>
             close (logError srv ''Authentication failed, closing connection'' False w2)
         | (True, w2) \<Rightarrow>
             (let w3 = logError srv ''Client authenticated successfully'' False w2;
                  w4 = processVectors srv w3;
                  w5 = close w4
              in logError srv ''Client connection closed'' False w5))"

text \<open>
  \<open>Server::start\<close> up to its accept loop. \<open>net\<close> says which of the socket calls succeed.
  The function returns \<open>false\<close> (\<open>Returned False\<close>) or enters \<open>while (true)\<close>, which
  it never leaves (\<open>AcceptLoop\<close>, with the server and the world at that point).
\<close>

record net =
  socket_ok :: bool
  setsockopt_ok :: bool
  bind_ok :: bool
  listen_ok :: bool

datatype start_result = Returned bool server world | AcceptLoop server world

definition start :: "net \<Rightarrow> server \<Rightarrow> world \<Rightarrow> start_result" where
  "start nt srv w =
     (let srv1 = (if logs w (logPath srv) \<noteq> None then srv
                  else srv\<lparr>logPath := ''./server_fallback.log''\<rparr>)
      in if logs w (logPath srv1) = None then Returned False srv1 w
         else
           (let w1 = logError srv1 ''=== Server starting ==='' False w
            in case loadUserDatabase srv1 w1 of
                 (srv2, w2) \<Rightarrow>
                   (let w3 = logError srv2
                               (''User database loaded, users: ''
                                  @ to_string (int (length (users srv2)))) False w2
                    in if \<not> socket_ok nt
                       then Returned False srv2 (logError srv2 ''Cannot create socket'' True w3)
                       else if \<not> setsockopt_ok nt
                       then Returned False srv2
                              (logError srv2 ''Cannot set socket options'' True w3)
                       else if \<not> bind_ok nt
                       then Returned False srv2
                              (logError srv2
                                 (''Cannot bind socket to port '' @ to_string (port srv2))
                                 True w3)
                       else if \<not> listen_ok nt
                       then Returned False srv2
                              (logError srv2 ''Cannot listen on socket'' True w3)
                       else AcceptLoop srv2
                              (logError srv2
                                 (''Server started successfully on port ''
                                    @ to_string (port srv2)) False w3))))"

section \<open>Reading a trace\<close>

text \<open>
  The keys of the \<open>users.find\<close> calls of a trace, and the events of the vector exchange:
  the calls on the socket made by \<open>processVectors\<close>.
\<close>

fun lookups :: "event list \<Rightarrow> string list" where
  "lookups [] = []"
| "lookups (FindEv k # es) = k # lookups es"
| "lookups (_ # es) = lookups es"

fun vector_tag :: "tag \<Rightarrow> bool" where
  "vector_tag Count = True"
| "vector_tag (Size _) = True"
| "vector_tag (Payload _) = True"
| "vector_tag (Result _) = True"
| "vector_tag _ = False"

fun vector_event :: "event \<Rightarrow> bool" where
  "vector_event (RecvEv t _ _) = vector_tag t"
| "vector_event (SendEv t _ _) = vector_tag t"
| "vector_event _ = False"

text \<open>
  For the order of the vector exchange: \<open>reads_vector j\<close> holds of the \<open>recv\<close> calls that
  read the size field or the elements of the vector with index \<open>j\<close>, and
  \<open>sends_result j\<close> of a \<open>send\<close> of the result of that vector that wrote its two bytes.
  \<open>results_precede n\<close> says of a list of events that every read of a vector with an
  index above \<open>n\<close> comes after the result of the vector before it was sent.
\<close>

fun reads_vector :: "nat \<Rightarrow> event \<Rightarrow> bool" where
  "reads_vector j (RecvEv (Size i) _ _) = (i = j)"
| "reads_vector j (RecvEv (Payload i) _ _) = (i = j)"
| "reads_vector _ _ = False"

fun sends_result :: "nat \<Rightarrow> event \<Rightarrow> bool" where
  "sends_result j (SendEv (Result i) payload r) = (i = j \<and> length payload = 2 \<and> r = 2)"
| "sends_result _ _ = False"

definition results_precede :: "nat \<Rightarrow> event list \<Rightarrow> bool" where
  "results_precede n evs =
     (\<forall>pre e post j. evs = pre @ e # post \<and> reads_vector (Suc j) e \<and> n \<le> j
        \<longrightarrow> (\<exists>s \<in> set pre. sends_result j s))"

section \<open>A concrete server and connection\<close>

text \<open>
  A server that knows one user, and a world for it: the credential file of that user, a
  log file that can be written, a random generator whose next value is
  \<open>0x0123456789ABCDEF\<close>, a socket that accepts what is sent, and the SHA-224 digest of
  the one input the handshake hashes with that salt and that secret. \<open>arrivals\<close> is
  what the peer sends.
\<close>

definition example_server :: server where
  "example_server =
     (Server 33333 ''/scale.conf'' ''/log/scale.log'')\<lparr>users := [(''user'', ''P@ssW0rd'')]\<rparr>"

definition example_world :: "rx_item list \<Rightarrow> world" where
  "example_world arrivals =
     \<lparr>files = (\<lambda>p. if p = ''/scale.conf'' then Some [''user:P@ssW0rd''] else None),
      logs = (\<lambda>p. if p = ''/log/scale.log'' then Some [] else None),
      evp_sha224 = (\<lambda>s. if s = ''0123456789ABCDEFP@ssW0rd''
         then Some [CHR 0xCB, CHR 0x79, CHR 0x13, CHR 0x9E, CHR 0x53, CHR 0x6D, CHR 0xC9,
                    CHR 0x4B, CHR 0x1F, CHR 0x38, CHR 0xA0, CHR 0x85, CHR 0x17, CHR 0x68,
                    CHR 0x28, CHR 0xF9, CHR 0x69, CHR 0x15, CHR 0x94, CHR 0x7D, CHR 0x9F,
                    CHR 0x9B, CHR 0xBE, CHR 0xFE, CHR 0x66, CHR 0x3D, CHR 0xD8, CHR 0x3B]
         else None),
      rnd = [0x0123456789ABCDEF],
      rx = arrivals,
      tx = [],
      trace = []\<rparr>"

text \<open>
  What a client sends after the handshake for two vectors, \<open>[1, 2, 3, 4]\<close> and
  \<open>[200, 200]\<close>: the count, then for each vector its size and its elements. The elements
  of the first vector arrive in two pieces.
\<close>

definition two_vectors :: "rx_item list" where
  "two_vectors =
     [Data [CHR 0x02, CHR 0x00, CHR 0x00, CHR 0x00],
      Data [CHR 0x04, CHR 0x00, CHR 0x00, CHR 0x00],
      Data [CHR 0x01, CHR 0x00, CHR 0x02],
      Data [CHR 0x00, CHR 0x03, CHR 0x00, CHR 0x04, CHR 0x00],
      Data [CHR 0x02, CHR 0x00, CHR 0x00, CHR 0x00],
      Data [CHR 0xC8, CHR 0x00, CHR 0xC8, CHR 0x00]]"

section \<open>Properties of the saturating sum\<close>

lemma square_bounds:
  "0 \<le> sint (v :: int16) * sint v" "sint (v :: int16) * sint v \<le> 2 ^ 30"
proof -
  have lo: "- (2 ^ 15) \<le> sint v" using sint_ge [of v] by simp
  have hi: "sint v < 2 ^ 15" using sint_lt [of v] by simp
  have "\<bar>sint v\<bar> \<le> 2 ^ 15" using lo hi by simp
  then have "\<bar>sint v\<bar> * \<bar>sint v\<bar> \<le> 2 ^ 15 * 2 ^ 15" by (intro mult_mono) auto
  then show "sint v * sint v \<le> 2 ^ 30" by (simp add: abs_mult_self_eq flip: abs_mult)
  show "0 \<le> sint v * sint v" by simp
qed

lemma square_sint: "sint ((scast (v :: int16) :: int64) * scast v) = sint v * sint v"
proof -
  have a: "sint (scast v :: int64) = sint v" by (simp add: sint_up_scast is_up)
  have c: "- (2 ^ 63) \<le> (0 :: int)" "(2 :: int) ^ 30 < 2 ^ 63" by simp_all
  have "signed_take_bit 63 (sint v * sint v) = sint v * sint v"
    apply (rule signed_take_bit_int_eq_self)
    using square_bounds [of v] c by linarith+
  then show ?thesis
    by (simp add: sint_word_ariths a)
qed

lemma sum_step:
  assumes "0 \<le> sint (s :: int64)" "sint s \<le> 32767"
  shows "sint (s + scast (v :: int16) * scast v) = sint s + sint v * sint v"
proof -
  have c: "- (2 ^ 63) \<le> (0 :: int)" "32767 + (2 :: int) ^ 30 < 2 ^ 63" by simp_all
  have "signed_take_bit 63 (sint s + sint v * sint v) = sint s + sint v * sint v"
    apply (rule signed_take_bit_int_eq_self)
    using assms square_bounds [of v] c by linarith+
  then show ?thesis
    by (simp add: sint_word_add [of s "scast v * scast v"] square_sint)
qed

lemma squares_nonneg: "0 \<le> (\<Sum>x\<leftarrow>xs. sint (x :: int16) * sint x)"
  by (induction xs) simp_all

lemma sum_loop_exit:
  assumes "0 \<le> sint s" "sint s \<le> 32767"
  shows "fst (sum_loop s xs) =
           (if 32767 < sint s + (\<Sum>x\<leftarrow>xs. sint x * sint x) then ReturnMax
            else LoopDone (word_of_int (sint s + (\<Sum>x\<leftarrow>xs. sint x * sint x))))"
  using assms
proof (induction xs arbitrary: s)
  case Nil
  then show ?case by simp
next
  case (Cons v xs)
  let ?s' = "s + scast v * scast v"
  have st: "sint ?s' = sint s + sint v * sint v" using Cons.prems by (rule sum_step)
  have nn: "0 \<le> sint ?s'" using st Cons.prems by simp
  show ?case
  proof (cases "32767 < sint ?s'")
    case True
    then have "32767 < sint s + (\<Sum>x\<leftarrow>v # xs. sint x * sint x)"
      using st squares_nonneg [of xs] by simp
    with True show ?thesis by (simp add: Let_def word_sless_alt)
  next
    case False
    then have le: "sint ?s' \<le> 32767" by simp
    have "\<not> sint ?s' < - 32768" using nn by simp
    then have "fst (sum_loop s (v # xs)) = fst (sum_loop ?s' xs)"
      using False by (simp add: Let_def word_sless_alt split: prod.splits)
    also have "\<dots> = (if 32767 < sint ?s' + (\<Sum>x\<leftarrow>xs. sint x * sint x) then ReturnMax
            else LoopDone (word_of_int (sint ?s' + (\<Sum>x\<leftarrow>xs. sint x * sint x))))"
      using Cons.IH [OF nn le] .
    finally show ?thesis using st by (simp add: add.assoc)
  qed
qed

lemma calc_closed_form:
  "sint (calculateSumOfSquares xs) = max (- 32768) (min 32767 (\<Sum>x\<leftarrow>xs. sint x * sint x))"
proof (cases "xs = []")
  case True
  then show ?thesis by (simp add: calculateSumOfSquares_def)
next
  case False
  let ?S = "\<Sum>x\<leftarrow>xs. sint x * sint x"
  have ex: "fst (sum_loop 0 xs) = (if 32767 < ?S then ReturnMax else LoopDone (word_of_int ?S))"
    using sum_loop_exit [of 0 xs] by simp
  show ?thesis
  proof (cases "32767 < ?S")
    case True
    then show ?thesis using ex False by (simp add: calculateSumOfSquares_def)
  next
    case small: False
    have nn: "0 \<le> ?S" by (rule squares_nonneg)
    have "(ucast (word_of_int ?S :: int64) :: int16) = word_of_int ?S"
      by (simp add: ucast_eq unsigned_of_int word_eq_iff_unsigned [where ?'a = int]
          take_bit_of_int min_def)
    moreover have "sint (word_of_int ?S :: int16) = ?S"
      apply (simp add: sint_sbintrunc')
      apply (rule signed_take_bit_int_eq_self)
      using nn small by simp_all
    ultimately have "sint (ucast (word_of_int ?S :: int64) :: int16) = ?S" by simp
    then show ?thesis using ex False small nn by (simp add: calculateSumOfSquares_def)
  qed
qed

lemma sum_loop_history:
  assumes "0 \<le> sint s" "sint s \<le> 32767"
  shows "sorted (map sint (s # snd (sum_loop s xs)))"
  using assms
proof (induction xs arbitrary: s)
  case Nil
  then show ?case by simp
next
  case (Cons v xs)
  let ?s' = "s + scast v * scast v"
  have st: "sint ?s' = sint s + sint v * sint v" using Cons.prems by (rule sum_step)
  have nn: "0 \<le> sint ?s'" using st Cons.prems by simp
  have up: "sint s \<le> sint ?s'" using st by simp
  show ?case
  proof (cases "32767 < sint ?s' \<or> sint ?s' < - 32768")
    case True
    then show ?thesis using up by (auto simp: Let_def word_sless_alt)
  next
    case False
    then have le: "sint ?s' \<le> 32767" by simp
    have ih: "sorted (map sint (?s' # snd (sum_loop ?s' xs)))" by (rule Cons.IH [OF nn le])
    have "snd (sum_loop s (v # xs)) = ?s' # snd (sum_loop ?s' xs)"
      using False by (simp add: Let_def word_sless_alt split: prod.splits)
    then show ?thesis using ih up by auto
  qed
qed

lemma squares_mset:
  "(\<Sum>x\<leftarrow>xs. sint (x :: int16) * sint x)
     = sum_mset (image_mset (\<lambda>x. sint x * sint x) (mset xs))"
  by (induction xs) simp_all

text \<open>
  Claim C1. For every sequence of 16-bit signed integers, \<open>calculateSumOfSquares\<close>
  returns the mathematical sum of the squares of the elements, clamped to the range from
  \<open>-32768\<close> to \<open>32767\<close>; the empty sequence gives 0, \<open>[1,2,3,4]\<close> and \<open>[-1,2,-3,4]\<close>
  give 30, and \<open>[200,200]\<close> gives 32767.
\<close>

theorem calculateSumOfSquares_clamped_sum:
  "sint (calculateSumOfSquares xs) = max (- 32768) (min 32767 (\<Sum>x\<leftarrow>xs. sint x * sint x))
   \<and> calculateSumOfSquares [] = 0
   \<and> calculateSumOfSquares [1, 2, 3, 4] = 30
   \<and> calculateSumOfSquares [- 1, 2, - 3, 4] = 30
   \<and> calculateSumOfSquares [200, 200] = 32767"
proof -
  have a: "sint (calculateSumOfSquares xs)
      = max (- 32768) (min 32767 (\<Sum>x\<leftarrow>xs. sint x * sint x))"
    by (rule calc_closed_form)
  have b: "calculateSumOfSquares [] = 0" by (simp add: calculateSumOfSquares_def)
  have c: "calculateSumOfSquares [1, 2, 3, 4] = 30" by code_simp
  have d: "calculateSumOfSquares [- 1, 2, - 3, 4] = 30" by code_simp
  have e: "calculateSumOfSquares [200, 200] = 32767" by code_simp
  from a b c d e show ?thesis by blast
qed

theorem calculateSumOfSquares_clamped_sum_witness:
  "sint (calculateSumOfSquares [100, - 100, 100, 50]) = 32500
   \<and> sint (calculateSumOfSquares [100, - 100, 100, 52]) = 32704
   \<and> sint (calculateSumOfSquares [100, - 100, 100, 53]) = 32767
   \<and> sint (calculateSumOfSquares [- 32768, - 32768]) = 32767"
  using calculateSumOfSquares_clamped_sum [of "[100, - 100, 100, 50]"]
    calculateSumOfSquares_clamped_sum [of "[100, - 100, 100, 52]"]
    calculateSumOfSquares_clamped_sum [of "[100, - 100, 100, 53]"]
    calculateSumOfSquares_clamped_sum [of "[- 32768, - 32768]"]
  by simp

text \<open>
  Claim C2. In \<open>calculateSumOfSquares\<close>, for every input sequence, the running 64-bit sum
  never decreases from one iteration to the next, and the branch that returns \<open>-32768\<close>
  is never taken.
\<close>

theorem sum_loop_monotone_lower_clamp_dead:
  "sorted (map sint (0 # snd (sum_loop 0 xs))) \<and> fst (sum_loop 0 xs) \<noteq> ReturnMin"
proof
  show "sorted (map sint (0 # snd (sum_loop 0 xs)))"
    using sum_loop_history [of 0 xs] by simp
  show "fst (sum_loop 0 xs) \<noteq> ReturnMin"
    using sum_loop_exit [of 0 xs] by simp
qed

theorem sum_loop_monotone_lower_clamp_dead_witness:
  "sum_loop 0 [- 181, 2, - 32768, 7] = (ReturnMax, [32761, 32765, 1073774589])"
  using sum_loop_monotone_lower_clamp_dead [of "[- 181, 2, - 32768, 7]"]
  by code_simp

text \<open>
  Claim C10. \<open>calculateSumOfSquares\<close> returns the same result on every reordering of its
  input, the early return at \<open>32767\<close> notwithstanding.
\<close>

theorem calculateSumOfSquares_permutation:
  assumes "mset xs = mset ys"
  shows "calculateSumOfSquares xs = calculateSumOfSquares ys"
proof -
  have "(\<Sum>x\<leftarrow>xs. sint x * sint x) = (\<Sum>x\<leftarrow>ys. sint x * sint x)"
    using assms by (simp add: squares_mset)
  then have "sint (calculateSumOfSquares xs) = sint (calculateSumOfSquares ys)"
    by (simp add: calc_closed_form)
  then show ?thesis by (rule signed_word_eqI)
qed

theorem calculateSumOfSquares_permutation_witness:
  "mset [200, 1, 150 :: int16] = mset [1, 150, 200]
   \<and> calculateSumOfSquares [200, 1, 150] = calculateSumOfSquares [1, 150, 200]"
proof -
  have m: "mset [200, 1, 150 :: int16] = mset [1, 150, 200]" by (simp add: add_mset_commute)
  show ?thesis using m calculateSumOfSquares_permutation [OF m] by simp
qed

section \<open>Effects of the calls on the world\<close>

lemma logError_keeps [simp]:
  "trace (logError srv m c w) = trace w"
  "rx (logError srv m c w) = rx w"
  "tx (logError srv m c w) = tx w"
  "rnd (logError srv m c w) = rnd w"
  "files (logError srv m c w) = files w"
  "evp_sha224 (logError srv m c w) = evp_sha224 w"
  by (simp_all add: logError_def split: option.splits)

lemma close_trace [simp]: "trace (close w) = trace w @ [CloseEv]"
  by (simp add: close_def)

lemma recv_effect:
  assumes "recv t n w = ((k, bs), w')"
  shows "trace w' = trace w @ [RecvEv t k bs]" "tx w' = tx w" "rnd w' = rnd w"
    "logs w' = logs w" "files w' = files w" "evp_sha224 w' = evp_sha224 w"
  using assms by (auto simp: recv_def split: list.splits rx_item.splits if_splits)

lemma recv_data:
  assumes "rx w = Data bs # rest" "bs \<noteq> []"
  shows "\<exists>w'. recv t n w = ((int (min n (length bs)), take n bs), w')"
  using assms by (auto simp: recv_def min_def)

lemma send_effect:
  assumes "send t p w = (r, w')"
  shows "trace w' = trace w @ [SendEv t p r]" "rx w' = rx w" "rnd w' = rnd w"
    "logs w' = logs w" "files w' = files w" "evp_sha224 w' = evp_sha224 w"
  using assms by (auto simp: send_def Let_def split: list.splits)

lemma generateSalt_effect:
  assumes "generateSalt w = (salt, w')"
  shows "trace w' = trace w @ [SaltEv salt]" "rx w' = rx w" "tx w' = tx w"
    "logs w' = logs w" "files w' = files w" "evp_sha224 w' = evp_sha224 w"
  using assms by (auto simp: generateSalt_def Let_def)

lemma find_user_effect:
  assumes "find_user srv login w = (r, w')"
  shows "r = map_of (users srv) login" "trace w' = trace w @ [FindEv login]" "rx w' = rx w"
    "tx w' = tx w" "rnd w' = rnd w" "logs w' = logs w" "evp_sha224 w' = evp_sha224 w"
  using assms by (auto simp: find_user_def)

section \<open>Properties of the credential loader\<close>

lemma first_separator:
  assumes "c \<in> set s"
  shows "\<exists>after. s = takeWhile (\<lambda>x. x \<noteq> c) s @ c # after
      \<and> drop (Suc (length (takeWhile (\<lambda>x. x \<noteq> c) s))) s = after"
proof -
  let ?before = "takeWhile (\<lambda>x. x \<noteq> c) s"
  have ne: "dropWhile (\<lambda>x. x \<noteq> c) s \<noteq> []" using assms by (simp add: dropWhile_eq_Nil_conv)
  then obtain d after where d: "dropWhile (\<lambda>x. x \<noteq> c) s = d # after"
    by (cases "dropWhile (\<lambda>x. x \<noteq> c) s") auto
  have "d = hd (dropWhile (\<lambda>x. x \<noteq> c) s)" using d by simp
  then have "d = c" using hd_dropWhile [OF ne] by simp
  then have s: "s = ?before @ c # after" using d takeWhile_dropWhile_id [of "\<lambda>x. x \<noteq> c" s] by simp
  have "drop (Suc (length ?before)) (?before @ c # after) = after" by simp
  with s show ?thesis by metis
qed

lemma takeWhile_first:
  assumes "c \<notin> set before"
  shows "takeWhile (\<lambda>x. x \<noteq> c) (before @ c # after) = before"
  using assms by (induction before) auto

text \<open>
  Claim C3, as the code has it. A line of the credential file is recorded if and only if
  it contains a separator \<open>:\<close> and both the substring before the first separator and the
  substring after it are non-empty; the login is the former and the secret the latter,
  with any further separators. Every other line leaves the mapping as it was.
\<close>

theorem parse_line_accepts:
  "(parse_line line = Some (login, password)
      \<longleftrightarrow> login \<noteq> [] \<and> password \<noteq> [] \<and> CHR '':'' \<notin> set login
          \<and> line = login @ CHR '':'' # password)
   \<and> map_of (store_line line us)
       = (case parse_line line of None \<Rightarrow> map_of us
          | Some (l, p) \<Rightarrow> (map_of us)(l \<mapsto> p))"
proof
  show "parse_line line = Some (login, password)
      \<longleftrightarrow> login \<noteq> [] \<and> password \<noteq> [] \<and> CHR '':'' \<notin> set login
          \<and> line = login @ CHR '':'' # password"
  proof
    assume p: "parse_line line = Some (login, password)"
    then have mem: "CHR '':'' \<in> set line"
      by (auto simp: parse_line_def find_char_def split: if_splits)
    let ?before = "takeWhile (\<lambda>x. x \<noteq> CHR '':'') line"
    obtain after where s: "line = ?before @ CHR '':'' # after"
      and d: "drop (Suc (length ?before)) line = after"
      using first_separator [OF mem] by blast
    have tk: "take (length ?before) line = ?before"
      by (metis append_eq_conv_conj s)
    from p mem have "login = ?before" "password = after" "login \<noteq> []" "password \<noteq> []"
      by (auto simp: parse_line_def find_char_def Let_def d tk split: if_splits)
    moreover have "CHR '':'' \<notin> set ?before" by (auto dest: set_takeWhileD)
    ultimately show "login \<noteq> [] \<and> password \<noteq> [] \<and> CHR '':'' \<notin> set login
          \<and> line = login @ CHR '':'' # password"
      using s by simp
  next
    assume a: "login \<noteq> [] \<and> password \<noteq> [] \<and> CHR '':'' \<notin> set login
          \<and> line = login @ CHR '':'' # password"
    then have tw: "takeWhile (\<lambda>x. x \<noteq> CHR '':'') line = login"
      using takeWhile_first [of "CHR '':''" login password] by simp
    have mem: "CHR '':'' \<in> set line" using a by simp
    have f: "find_char CHR '':'' line = Some (length login)"
      using mem tw by (simp add: find_char_def)
    have len: "length line = length login + 1 + length password" using a by simp
    have "0 < length login" "length login < length line - 1"
      using a len by (cases login; cases password; simp)+
    moreover have "take (length login) line = login" "drop (length login + 1) line = password"
      using a by simp_all
    ultimately show "parse_line line = Some (login, password)"
      using f a by (simp add: parse_line_def Let_def)
  qed
next
  show "map_of (store_line line us)
       = (case parse_line line of None \<Rightarrow> map_of us
          | Some (l, p) \<Rightarrow> (map_of us)(l \<mapsto> p))"
    by (simp add: store_line_def update_conv' split: option.splits)
qed

theorem parse_line_accepts_witness:
  "parse_line ''user2:pass2'' = Some (''user2'', ''pass2'')
   \<and> parse_line ''a:b:c'' = Some (''a'', ''b:c'')
   \<and> users (fst (loadUserDatabase (Server 33333 ''/scale.conf'' ''/log/scale.log'')
        ((example_world [])\<lparr>files := (\<lambda>p. if p = ''/scale.conf''
            then Some [''user1pass1'', ''user2:pass2'', '':pass3'', ''user4:'', ''user5:pass5'']
            else None)\<rparr>)))
       = [(''user2'', ''pass2''), (''user5'', ''pass5'')]"
proof -
  have a: "parse_line ''user2:pass2'' = Some (''user2'', ''pass2'')"
    using parse_line_accepts [of "''user2:pass2''" "''user2''" "''pass2''" "[]"] by simp
  have b: "parse_line ''a:b:c'' = Some (''a'', ''b:c'')"
    using parse_line_accepts [of "''a:b:c''" "''a''" "''b:c''" "[]"] by simp
  have c: "users (fst (loadUserDatabase (Server 33333 ''/scale.conf'' ''/log/scale.log'')
        ((example_world [])\<lparr>files := (\<lambda>p. if p = ''/scale.conf''
            then Some [''user1pass1'', ''user2:pass2'', '':pass3'', ''user4:'', ''user5:pass5'']
            else None)\<rparr>)))
       = [(''user2'', ''pass2''), (''user5'', ''pass5'')]"
    by (simp add: loadUserDatabase_def Server_def example_world_def store_line_def
        parse_line_def find_char_def Let_def)
  from a b c show ?thesis by (intro conjI)
qed

text \<open>
  The claim as stated fails: the line \<open>a:b:c\<close> has two separators and is recorded, with
  the login \<open>a\<close> and the secret \<open>b:c\<close>.
\<close>

theorem credential_line_counterexample:
  "count_list ''a:b:c'' CHR '':'' = 2
   \<and> users (fst (loadUserDatabase (Server 33333 ''/scale.conf'' ''/log/scale.log'')
        ((example_world [])\<lparr>files := (\<lambda>p. if p = ''/scale.conf'' then Some [''a:b:c'']
            else None)\<rparr>)))
       = [(''a'', ''b:c'')]"
  by (simp add: loadUserDatabase_def Server_def example_world_def store_line_def
      parse_line_def find_char_def Let_def)

text \<open>
  Claim C4, as the code has it. When the credential file cannot be opened,
  \<open>loadUserDatabase\<close> leaves the server, and with it the user mapping, as it was, and
  reports the condition to the log with the flag \<open>isCritical\<close> set, so that the line
  reads \<open>CRITICAL\<close>; \<open>start\<close> does not return on it: where the log or its fallback
  can be opened and the socket calls succeed, a server constructed with no users reaches
  the accept loop with no user known.
\<close>

theorem loadUserDatabase_unreadable:
  assumes "files w (userDbPath srv) = None"
  shows "fst (loadUserDatabase srv w) = srv
     \<and> snd (loadUserDatabase srv w)
         = logError srv (''Cannot open user database file: '' @ userDbPath srv) True w
     \<and> (\<forall>lines. logs w (logPath srv) = Some lines \<longrightarrow>
           logs (snd (loadUserDatabase srv w)) (logPath srv)
             = Some (lines @ [(''CRITICAL'',
                  ''Cannot open user database file: '' @ userDbPath srv)]))
     \<and> (users srv = []
          \<and> (logs w (logPath srv) \<noteq> None \<or> logs w ''./server_fallback.log'' \<noteq> None)
          \<and> socket_ok nt \<and> setsockopt_ok nt \<and> bind_ok nt \<and> listen_ok nt
          \<longrightarrow> (\<exists>srv' w'. start nt srv w = AcceptLoop srv' w' \<and> users srv' = []))"
proof -
  have l: "loadUserDatabase srv w
      = (srv, logError srv (''Cannot open user database file: '' @ userDbPath srv) True w)"
    using assms by (simp add: loadUserDatabase_def)
  have s: "\<exists>srv' w'. start nt srv w = AcceptLoop srv' w' \<and> users srv' = []"
    if u: "users srv = []"
      and lg: "logs w (logPath srv) \<noteq> None \<or> logs w ''./server_fallback.log'' \<noteq> None"
      and nt: "socket_ok nt" "setsockopt_ok nt" "bind_ok nt" "listen_ok nt"
  proof -
    define srv1 where "srv1 = (if logs w (logPath srv) \<noteq> None then srv
                  else srv\<lparr>logPath := ''./server_fallback.log''\<rparr>)"
    have o: "logs w (logPath srv1) \<noteq> None" using lg by (auto simp: srv1_def)
    have p: "userDbPath srv1 = userDbPath srv" "users srv1 = []"
      using u by (simp_all add: srv1_def)
    have f: "files (logError srv1 ''=== Server starting ==='' False w) (userDbPath srv1) = None"
      using assms p by simp
    have l1: "loadUserDatabase srv1 (logError srv1 ''=== Server starting ==='' False w)
        = (srv1, logError srv1 (''Cannot open user database file: '' @ userDbPath srv1) True
             (logError srv1 ''=== Server starting ==='' False w))"
      using f by (simp add: loadUserDatabase_def)
    have "\<exists>w'. start nt srv w = AcceptLoop srv1 w'"
      unfolding start_def srv1_def [symmetric] using o nt l1 by (simp add: Let_def)
    with p(2) show ?thesis by blast
  qed
  have c: "logs (snd (loadUserDatabase srv w)) (logPath srv)
             = Some (lines @ [(''CRITICAL'',
                  ''Cannot open user database file: '' @ userDbPath srv)])"
    if "logs w (logPath srv) = Some lines" for lines
    using that l by (simp add: logError_def)
  from l s c show ?thesis by (intro conjI allI impI) simp_all
qed

theorem loadUserDatabase_unreadable_witness:
  "fst (loadUserDatabase (Server 33333 ''missing.conf'' ''/log/scale.log'') (example_world []))
     = Server 33333 ''missing.conf'' ''/log/scale.log''
   \<and> logs (snd (loadUserDatabase (Server 33333 ''missing.conf'' ''/log/scale.log'')
        (example_world []))) ''/log/scale.log''
     = Some [(''CRITICAL'', ''Cannot open user database file: missing.conf'')]
   \<and> (\<exists>srv' w'.
          start \<lparr>socket_ok = True, setsockopt_ok = True, bind_ok = True, listen_ok = True\<rparr>
            (Server 33333 ''missing.conf'' ''/log/scale.log'') (example_world [])
          = AcceptLoop srv' w' \<and> users srv' = [])"
proof -
  let ?srv = "Server 33333 ''missing.conf'' ''/log/scale.log''"
  let ?nt = "\<lparr>socket_ok = True, setsockopt_ok = True, bind_ok = True, listen_ok = True\<rparr>"
  have h: "files (example_world []) (userDbPath ?srv) = None"
    by (simp add: example_world_def Server_def)
  have lg: "logs (example_world []) (logPath ?srv) = Some []"
    by (simp add: example_world_def Server_def)
  have hyps: "users ?srv = []
      \<and> (logs (example_world []) (logPath ?srv) \<noteq> None
         \<or> logs (example_world []) ''./server_fallback.log'' \<noteq> None)
      \<and> socket_ok ?nt \<and> setsockopt_ok ?nt \<and> bind_ok ?nt \<and> listen_ok ?nt"
    by (simp add: example_world_def Server_def)
  note t = loadUserDatabase_unreadable [OF h, of ?nt]
  have a: "fst (loadUserDatabase ?srv (example_world [])) = ?srv"
    by (rule t [THEN conjunct1])
  have "logs (snd (loadUserDatabase ?srv (example_world []))) (logPath ?srv)
      = Some ([] @ [(''CRITICAL'', ''Cannot open user database file: '' @ userDbPath ?srv)])"
    by (rule t [THEN conjunct2, THEN conjunct2, THEN conjunct1, THEN spec, THEN mp, OF lg])
  then have b: "logs (snd (loadUserDatabase ?srv (example_world []))) ''/log/scale.log''
      = Some [(''CRITICAL'', ''Cannot open user database file: missing.conf'')]"
    by (simp add: Server_def)
  have c: "\<exists>srv' w'. start ?nt ?srv (example_world []) = AcceptLoop srv' w' \<and> users srv' = []"
    by (rule t [THEN conjunct2, THEN conjunct2, THEN conjunct2, THEN mp, OF hyps])
  from a b c show ?thesis by (intro conjI)
qed

text \<open>
  The claim as stated fails: the condition is reported with the flag set, and the line of
  the log reads \<open>CRITICAL\<close>, not \<open>NON-CRITICAL\<close>.
\<close>

theorem loadUserDatabase_unreadable_counterexample:
  "logs (snd (loadUserDatabase (Server 33333 ''missing.conf'' ''/log/scale.log'')
        (example_world []))) ''/log/scale.log''
     = Some [(''CRITICAL'', ''Cannot open user database file: missing.conf'')]
   \<and> ''CRITICAL'' \<noteq> ''NON-CRITICAL''"
  by (simp add: loadUserDatabase_def Server_def example_world_def logError_def)

section \<open>Properties of the handshake\<close>

text \<open>
  Claim C5. When the login that \<open>authenticate\<close> looks up is not in the credential
  mapping, it sends the three bytes \<open>ERR\<close> and fails; no salt is generated or sent, and
  the random generator is not used.
\<close>

theorem authenticate_unknown_login:
  assumes "rx w = Data bs # rest" "bs \<noteq> []"
    and "map_of (users srv) (c_str (take 255 bs)) = None"
  shows "\<not> fst (authenticate srv w)
     \<and> (\<exists>r. trace (snd (authenticate srv w)) =
            trace w @ [RecvEv Login (int (min 255 (length bs))) (take 255 bs),
                       FindEv (c_str (take 255 bs)), SendEv ErrIdent ''ERR'' r])
     \<and> rnd (snd (authenticate srv w)) = rnd w"
proof -
  define n where "n = min 255 (length bs)"
  define buffer where "buffer = take 255 bs"
  have pos: "0 < n" using assms(2) by (cases bs) (simp_all add: n_def)
  obtain w1 where r: "recv Login 255 w = ((int n, buffer), w1)"
    using recv_data [OF assms(1,2), of Login 255] unfolding n_def buffer_def by blast
  obtain w2 where f: "find_user srv (c_str buffer) w1 = (None, w2)"
    using assms(3) by (simp add: find_user_def buffer_def)
  obtain r3 w3 where s: "send ErrIdent ''ERR'' w2 = (r3, w3)"
    by (cases "send ErrIdent ''ERR'' w2")
  have a: "authenticate srv w =
    (False, logError srv (''Identification failed for login: '' @ c_str buffer) False w3)"
    unfolding authenticate_def using r pos f s by (simp add: Let_def)
  have t: "trace w3 = trace w @ [RecvEv Login (int n) buffer,
                       FindEv (c_str buffer), SendEv ErrIdent ''ERR'' r3]"
    using send_effect(1) [OF s] find_user_effect(2) [OF f] recv_effect(1) [OF r] by simp
  have k: "rnd w3 = rnd w"
    using send_effect(3) [OF s] find_user_effect(5) [OF f] recv_effect(3) [OF r] by simp
  show ?thesis using a t k unfolding n_def buffer_def by auto
qed

theorem authenticate_unknown_login_witness:
  "\<not> fst (authenticate example_server (example_world [Data ''mallory'']))
   \<and> trace (snd (authenticate example_server (example_world [Data ''mallory''])))
       = [RecvEv Login 7 ''mallory'', FindEv ''mallory'', SendEv ErrIdent ''ERR'' 3]
   \<and> rnd (snd (authenticate example_server (example_world [Data ''mallory''])))
       = [0x0123456789ABCDEF]"
  using authenticate_unknown_login [of "example_world [Data ''mallory'']" "''mallory''" "[]"
      example_server]
  by (simp add: example_world_def example_server_def Server_def authenticate_def recv_def
      find_user_def send_def logError_def c_str_def Let_def)







lemma lookups_append [simp]: "lookups (xs @ ys) = lookups xs @ lookups ys"
  by (induction xs rule: lookups.induct) simp_all

text \<open>What \<open>authenticate\<close> adds to the trace, on each of its six ways out.\<close>

lemma authenticate_paths:
  assumes "recv Login 255 w = ((n, buffer), w1)"
  shows "\<exists>ext. trace (snd (authenticate srv w)) = trace w @ ext
      \<and> (\<forall>e \<in> set ext. \<not> vector_event e)
      \<and> lookups ext = (if 0 < n then [c_str buffer] else [])
      \<and> (fst (authenticate srv w) \<longrightarrow> (\<exists>pre r. ext = pre @ [SendEv Ok ''OK'' r]))"
proof (cases "n \<le> 0")
  case True
  then have "authenticate srv w
      = (False, logError srv ''No data received from client for login'' False w1)"
    unfolding authenticate_def using assms by simp
  then show ?thesis using recv_effect(1) [OF assms] True by simp
next
  case pos: False
  obtain stored w2 where f: "find_user srv (c_str buffer) w1 = (stored, w2)"
    by (cases "find_user srv (c_str buffer) w1")
  have t2: "trace w2 = trace w @ [RecvEv Login n buffer, FindEv (c_str buffer)]"
    using find_user_effect(2) [OF f] recv_effect(1) [OF assms] by simp
  show ?thesis
  proof (cases stored)
    case None
    obtain r3 w3 where s: "send ErrIdent ''ERR'' w2 = (r3, w3)"
      by (cases "send ErrIdent ''ERR'' w2")
    have "authenticate srv w =
        (False, logError srv (''Identification failed for login: '' @ c_str buffer) False w3)"
      unfolding authenticate_def using assms pos f None s by (simp add: Let_def)
    then show ?thesis using send_effect(1) [OF s] t2 pos by simp
  next
    case (Some password)
    obtain salt w3 where g: "generateSalt w2 = (salt, w3)" by (cases "generateSalt w2")
    obtain sent w4 where s: "send Salt (take 16 salt) w3 = (sent, w4)"
      by (cases "send Salt (take 16 salt) w3")
    have t4: "trace w4 = trace w @ [RecvEv Login n buffer, FindEv (c_str buffer),
        SaltEv salt, SendEv Salt (take 16 salt) sent]"
      using send_effect(1) [OF s] generateSalt_effect(1) [OF g] t2 by simp
    show ?thesis
    proof (cases "sent = 16")
      case False
      then have "authenticate srv w
          = (False, logError srv ''Failed to send salt to client'' False w4)"
        unfolding authenticate_def using assms pos f Some g s by (simp add: Let_def)
      then show ?thesis using t4 pos by simp
    next
      case True
      obtain m response w5 where r: "recv Response 255 w4 = ((m, response), w5)"
        by (cases "recv Response 255 w4") auto
      have t5: "trace w5 = trace w @ [RecvEv Login n buffer, FindEv (c_str buffer),
          SaltEv salt, SendEv Salt (take 16 salt) sent, RecvEv Response m response]"
        using recv_effect(1) [OF r] t4 by simp
      show ?thesis
      proof (cases "m \<le> 0")
        case True
        then have "authenticate srv w
            = (False, logError srv ''No hash received from client'' False w5)"
          unfolding authenticate_def using assms pos f Some g s \<open>sent = 16\<close> r
          by (simp add: Let_def)
        then show ?thesis using t5 pos by simp
      next
        case False
        show ?thesis
        proof (cases "sha224Hash w5 (salt @ password) = map toupper (c_str response)")
          case True
          obtain r6 w6 where o: "send Ok ''OK'' w5 = (r6, w6)" by (cases "send Ok ''OK'' w5")
          have "authenticate srv w = (True, logError srv
              (''Authentication successful for login: '' @ c_str buffer) False w6)"
            unfolding authenticate_def using assms pos f Some g s \<open>sent = 16\<close> r False True o
            by (simp add: Let_def)
          then show ?thesis using send_effect(1) [OF o] t5 pos by simp
        next
          case mismatch: False
          obtain r6 w6 where o: "send ErrAuth ''ERR'' w5 = (r6, w6)"
            by (cases "send ErrAuth ''ERR'' w5")
          have "authenticate srv w = (False, logError srv
              (''Authentication failed for login: '' @ c_str buffer) False w6)"
            unfolding authenticate_def using assms pos f Some g s \<open>sent = 16\<close> r False mismatch o
            by (simp add: Let_def)
          then show ?thesis using send_effect(1) [OF o] t5 pos by simp
        qed
      qed
    qed
  qed
qed

text \<open>
  Claim C7, as the code has it. In the first step of the handshake the login that is
  looked up in the credential store is the bytes that the one \<open>recv\<close> call returned (at
  most 255 of them) up to their first byte 0; when the peer's bytes fit the buffer and
  hold no byte 0, it is exactly these bytes.
\<close>

theorem authenticate_login_token:
  assumes "rx w = Data bs # rest" "bs \<noteq> []"
  shows "lookups (trace (snd (authenticate srv w)))
           = lookups (trace w) @ [takeWhile (\<lambda>c. c \<noteq> CHR 0x00) (take 255 bs)]
     \<and> (length bs \<le> 255 \<and> CHR 0x00 \<notin> set bs
          \<longrightarrow> lookups (trace (snd (authenticate srv w))) = lookups (trace w) @ [bs])"
proof -
  define n where "n = min 255 (length bs)"
  have pos: "0 < int n" using assms(2) by (cases bs) (simp_all add: n_def)
  obtain w1 where r: "recv Login 255 w = ((int n, take 255 bs), w1)"
    using recv_data [OF assms, of Login 255] unfolding n_def by blast
  obtain ext where e: "trace (snd (authenticate srv w)) = trace w @ ext"
    "lookups ext = [c_str (take 255 bs)]"
    using authenticate_paths [OF r, of srv] pos by auto
  have a: "lookups (trace (snd (authenticate srv w)))
           = lookups (trace w) @ [takeWhile (\<lambda>c. c \<noteq> CHR 0x00) (take 255 bs)]"
    using e by (simp add: c_str_def)
  have "takeWhile (\<lambda>c. c \<noteq> CHR 0x00) (take 255 bs) = bs"
    if "length bs \<le> 255" "CHR 0x00 \<notin> set bs"
    using that by (auto simp: takeWhile_eq_all_conv)
  with a show ?thesis by simp
qed

theorem authenticate_login_token_witness:
  "lookups (trace (snd (authenticate example_server
       (example_world [Data [CHR ''u'', CHR 0x09, CHR ''s'', CHR 0x00, CHR ''e'', CHR ''r'']]))))
     = [[CHR ''u'', CHR 0x09, CHR ''s'']]
   \<and> lookups (trace (snd (authenticate example_server (example_world [Data ''user'']))))
     = [''user'']"
  using authenticate_login_token [of
      "example_world [Data [CHR ''u'', CHR 0x09, CHR ''s'', CHR 0x00, CHR ''e'', CHR ''r'']]"
      "[CHR ''u'', CHR 0x09, CHR ''s'', CHR 0x00, CHR ''e'', CHR ''r'']" "[]" example_server]
    authenticate_login_token [of "example_world [Data ''user'']" "''user''" "[]" example_server]
  by (simp add: example_world_def)

text \<open>
  The claim as stated fails: the peer sends the six bytes \<open>user\<close>, 0, \<open>x\<close>, which are
  not a login of the store, and the login that is looked up is \<open>user\<close>, so that the
  handshake goes on to generate and send a salt.
\<close>

theorem authenticate_login_token_counterexample:
  "lookups (trace (snd (authenticate example_server
       (example_world [Data [CHR ''u'', CHR ''s'', CHR ''e'', CHR ''r'', CHR 0x00, CHR ''x'']]))))
     \<noteq> [[CHR ''u'', CHR ''s'', CHR ''e'', CHR ''r'', CHR 0x00, CHR ''x'']]
   \<and> map_of (users example_server)
       [CHR ''u'', CHR ''s'', CHR ''e'', CHR ''r'', CHR 0x00, CHR ''x''] = None
   \<and> trace (snd (authenticate example_server
       (example_world [Data [CHR ''u'', CHR ''s'', CHR ''e'', CHR ''r'', CHR 0x00, CHR ''x'']])))
     = [RecvEv Login 6 [CHR ''u'', CHR ''s'', CHR ''e'', CHR ''r'', CHR 0x00, CHR ''x''],
        FindEv ''user'', SaltEv ''0123456789ABCDEF'', SendEv Salt ''0123456789ABCDEF'' 16,
        RecvEv Response 0 []]"
proof -
  have sv: "map toupper (hex16 0x0123456789ABCDEF) = ''0123456789ABCDEF''"
    by code_simp
  show ?thesis
    by (simp add: example_world_def example_server_def Server_def authenticate_def recv_def
      find_user_def send_def logError_def c_str_def Let_def generateSalt_def sv)
qed

lemma authenticate_events:
  "\<exists>ext. trace (snd (authenticate srv w)) = trace w @ ext
      \<and> (\<forall>e \<in> set ext. \<not> vector_event e)
      \<and> (fst (authenticate srv w) \<longrightarrow> (\<exists>pre r. ext = pre @ [SendEv Ok ''OK'' r]))"
proof -
  obtain n buffer w1 where r: "recv Login 255 w = ((n, buffer), w1)"
    by (cases "recv Login 255 w") auto
  from authenticate_paths [OF r, of srv]
  obtain ext where "trace (snd (authenticate srv w)) = trace w @ ext"
      "\<forall>e \<in> set ext. \<not> vector_event e"
      "lookups ext = (if 0 < n then [c_str buffer] else [])"
      "fst (authenticate srv w) \<longrightarrow> (\<exists>pre r. ext = pre @ [SendEv Ok ''OK'' r])"
    by (elim exE conjE)
  then show ?thesis by (intro exI [of _ ext] conjI)
qed

section \<open>Properties of the vector exchange\<close>

lemma results_precede_own:
  assumes "\<forall>e \<in> set evs. \<forall>j. reads_vector j e \<longrightarrow> j = n"
  shows "results_precede n evs"
  unfolding results_precede_def
proof (intro allI impI)
  fix pre e post j
  assume h: "evs = pre @ e # post \<and> reads_vector (Suc j) e \<and> n \<le> j"
  then have "e \<in> set evs" by simp
  with assms h have "Suc j = n" by blast
  with h show "\<exists>s \<in> set pre. sends_result j s" by simp
qed

lemma results_precede_step:
  assumes own: "\<forall>e \<in> set evs. \<forall>j. reads_vector j e \<longrightarrow> j = n"
    and sent: "\<exists>s \<in> set evs. sends_result n s"
    and later: "results_precede (Suc n) evs'"
  shows "results_precede n (evs @ evs')"
  unfolding results_precede_def
proof (intro allI impI)
  fix pre e post j
  assume h: "evs @ evs' = pre @ e # post \<and> reads_vector (Suc j) e \<and> n \<le> j"
  then have eq: "evs @ evs' = pre @ e # post" and rd: "reads_vector (Suc j) e" and le: "n \<le> j"
    by simp_all
  from eq have "(\<exists>us. evs = pre @ us \<and> us @ evs' = e # post)
      \<or> (\<exists>us. evs @ us = pre \<and> evs' = us @ e # post)"
    by (auto simp: append_eq_append_conv2)
  then consider (left) "e \<in> set evs"
    | (right) us where "evs @ us = pre" "evs' = us @ e # post"
  proof (elim disjE exE conjE)
    fix us
    assume a: "evs = pre @ us" "us @ evs' = e # post"
    show thesis
    proof (cases us)
      case Nil
      with a have "evs @ [] = pre" "evs' = [] @ e # post" by simp_all
      then show thesis by (rule that(2))
    next
      case (Cons u us')
      with a have "e \<in> set evs" by simp
      then show thesis by (rule that(1))
    qed
  next
    fix us
    assume "evs @ us = pre" "evs' = us @ e # post"
    then show thesis by (rule that(2))
  qed
  then show "\<exists>s \<in> set pre. sends_result j s"
  proof cases
    case left
    with own rd have "Suc j = n" by blast
    with le show ?thesis by simp
  next
    case right
    show ?thesis
    proof (cases "j = n")
      case True
      with sent right show ?thesis by auto
    next
      case False
      with le have "Suc n \<le> j" by simp
      with later right(2) rd obtain s where "s \<in> set us" "sends_result j s"
        unfolding results_precede_def by blast
      with right(1) show ?thesis by auto
    qed
  qed
qed

lemma read_payload_events:
  "\<exists>evs. trace (snd (read_payload srv i need buffer w)) = trace w @ evs
      \<and> (\<forall>e \<in> set evs. \<exists>k bs. e = RecvEv (Payload i) k bs)"
proof (induction srv i need buffer w rule: read_payload.induct)
  case (1 srv i need buffer w)
  show ?case
  proof (cases "length buffer < need")
    case False
    then show ?thesis by (simp add: read_payload.simps)
  next
    case True
    obtain k bs w1 where r: "recv (Payload i) (need - length buffer) w = ((k, bs), w1)"
      by (cases "recv (Payload i) (need - length buffer) w") auto
    have t1: "trace w1 = trace w @ [RecvEv (Payload i) k bs]" by (rule recv_effect(1) [OF r])
    show ?thesis
    proof (cases "k \<le> 0")
      case stop: True
      then have "read_payload srv i need buffer w
          = (None, logError srv ''Failed to read vector data'' False w1)"
        using True r by (simp add: read_payload.simps)
      then show ?thesis using t1 by simp
    next
      case False
      then have eq: "read_payload srv i need buffer w = read_payload srv i need (buffer @ bs) w1"
        using True r by (simp add: read_payload.simps)
      obtain evs where "trace (snd (read_payload srv i need (buffer @ bs) w1)) = trace w1 @ evs"
        "\<forall>e \<in> set evs. \<exists>k bs. e = RecvEv (Payload i) k bs"
        using "1.IH" [OF True r [symmetric] refl False] by blast
      then show ?thesis using eq t1 by auto
    qed
  qed
qed

lemma vector_loop_events:
  "\<exists>evs. trace (vector_loop srv numVectors i w) = trace w @ evs
      \<and> results_precede (unat i) evs"
proof (induction srv numVectors i w rule: vector_loop.induct)
  case (1 srv numVectors i w)
  show ?case
  proof (cases "i < numVectors")
    case False
    then have "vector_loop srv numVectors i w = w" by (simp add: vector_loop.simps)
    then show ?thesis by (simp add: results_precede_def)
  next
    case True
    have suc: "unat (i + 1) = Suc (unat i)"
    proof -
      have "unat i < unat numVectors" using True by (simp add: word_less_nat_alt)
      moreover have "unat numVectors < 2 ^ 32"
        using unsigned_less [of numVectors, where ?'a = nat] by simp
      ultimately have "unat i + 1 < 2 ^ 32" by simp
      then show ?thesis by (simp add: unat_word_ariths)
    qed
    obtain k bs w1 where r: "recv (Size (unat i)) 4 w = ((k, bs), w1)"
      by (cases "recv (Size (unat i)) 4 w") auto
    have t1: "trace w1 = trace w @ [RecvEv (Size (unat i)) k bs]"
      by (rule recv_effect(1) [OF r])
    show ?thesis
    proof (cases "k = 4")
      case False
      then have "vector_loop srv numVectors i w
          = logError srv ''Failed to read vector size'' False w1"
        using True r by (simp add: vector_loop.simps)
      then have "trace (vector_loop srv numVectors i w)
          = trace w @ [RecvEv (Size (unat i)) k bs]"
        using t1 by simp
      moreover have "results_precede (unat i) [RecvEv (Size (unat i)) k bs]"
        by (rule results_precede_own) simp
      ultimately show ?thesis by blast
    next
      case k4: True
      define need where "need = unat (le_uint32 bs) * 2"
      obtain res w2 where p: "read_payload srv (unat i) need [] w1 = (res, w2)"
        by (cases "read_payload srv (unat i) need [] w1")
      obtain pevs where t2: "trace w2 = trace w1 @ pevs"
        and pe: "\<forall>e \<in> set pevs. \<exists>k bs. e = RecvEv (Payload (unat i)) k bs"
        using read_payload_events [of srv "unat i" need "[]" w1] p by auto
      show ?thesis
      proof (cases res)
        case None
        then have "vector_loop srv numVectors i w = w2"
          using True r k4 p by (simp add: vector_loop.simps Let_def need_def)
        then have "trace (vector_loop srv numVectors i w)
            = trace w @ (RecvEv (Size (unat i)) k bs # pevs)"
          using t1 t2 by simp
        moreover have "results_precede (unat i) (RecvEv (Size (unat i)) k bs # pevs)"
          by (rule results_precede_own) (use pe in auto)
        ultimately show ?thesis by blast
      next
        case (Some buffer)
        define result where "result = calculateSumOfSquares (le_int16s buffer)"
        obtain sent w3 where s: "send (Result (unat i)) (int16_bytes result) w2 = (sent, w3)"
          by (cases "send (Result (unat i)) (int16_bytes result) w2")
        define evs where "evs = RecvEv (Size (unat i)) k bs # pevs
            @ [SendEv (Result (unat i)) (int16_bytes result) sent]"
        have t3: "trace w3 = trace w @ evs"
          using send_effect(1) [OF s] t1 t2 by (simp add: evs_def)
        have own: "\<forall>e \<in> set evs. \<forall>j. reads_vector j e \<longrightarrow> j = unat i"
          using pe by (auto simp: evs_def)
        show ?thesis
        proof (cases "sent = 2")
          case False
          then have "vector_loop srv numVectors i w
              = logError srv (''Failed to send result for vector '' @ to_string (uint (i + 1)))
                  False w3"
            using True r k4 p Some s
            by (simp add: vector_loop.simps Let_def need_def result_def)
          then have "trace (vector_loop srv numVectors i w) = trace w @ evs"
            using t3 by simp
          moreover have "results_precede (unat i) evs"
            using own by (rule results_precede_own)
          ultimately show ?thesis by blast
        next
          case s2: True
          then have eq: "vector_loop srv numVectors i w = vector_loop srv numVectors (i + 1) w3"
            using True r k4 p Some s
            by (simp add: vector_loop.simps [of srv numVectors i w] Let_def need_def result_def)
          obtain evs' where t4: "trace (vector_loop srv numVectors (i + 1) w3) = trace w3 @ evs'"
            and later: "results_precede (unat (i + 1)) evs'"
            using "1.IH" [OF True r [symmetric] refl _ refl refl p [unfolded need_def, symmetric]
                Some refl s [unfolded result_def, symmetric]] k4 s2
            by blast
          have sent: "\<exists>e \<in> set evs. sends_result (unat i) e"
            using s2 by (auto simp: evs_def int16_bytes_def)
          have "results_precede (unat i) (evs @ evs')"
            using own sent later [unfolded suc] by (rule results_precede_step)
          moreover have "trace (vector_loop srv numVectors i w) = trace w @ evs @ evs'"
            using eq t4 t3 by simp
          ultimately show ?thesis by blast
        qed
      qed
    qed
  qed
qed

text \<open>
  Claim C8. In \<open>processVectors\<close>, the two bytes of the result of vector \<open>i\<close> are
  written to the socket before any byte of the size field, or of the elements, of vector
  \<open>i + 1\<close> is read.
\<close>

theorem processVectors_result_before_next_vector:
  assumes "trace (processVectors srv w) = trace w @ pre @ e # post"
    and "reads_vector (Suc i) e"
  shows "\<exists>s \<in> set pre. sends_result i s"
proof -
  obtain k bs w1 where r: "recv Count 4 w = ((k, bs), w1)"
    by (cases "recv Count 4 w") auto
  have t1: "trace w1 = trace w @ [RecvEv Count k bs]" by (rule recv_effect(1) [OF r])
  have own: "\<forall>e \<in> set [RecvEv Count k bs]. \<forall>j. reads_vector j e \<longrightarrow> j = 0" by simp
  have "\<exists>evs. trace (processVectors srv w) = trace w @ RecvEv Count k bs # evs
      \<and> results_precede 0 evs"
  proof (cases "k = 4")
    case False
    then have "processVectors srv w = logError srv ''Failed to read number of vectors'' False w1"
      using r by (simp add: processVectors_def)
    then show ?thesis using t1 by (simp add: results_precede_def)
  next
    case True
    then have "processVectors srv w = vector_loop srv (le_uint32 bs) 0 w1"
      using r by (simp add: processVectors_def)
    then show ?thesis using vector_loop_events [of srv "le_uint32 bs" 0 w1] t1 by auto
  qed
  then obtain evs where ev: "trace (processVectors srv w) = trace w @ RecvEv Count k bs # evs"
    and pr: "results_precede 0 evs" by blast
  from ev assms(1) have "RecvEv Count k bs # evs = pre @ e # post" by simp
  moreover have "e \<noteq> RecvEv Count k bs" using assms(2) by auto
  ultimately obtain pre' where "pre = RecvEv Count k bs # pre'" "evs = pre' @ e # post"
    by (cases pre) auto
  with pr assms(2) show ?thesis unfolding results_precede_def by fastforce
qed

text \<open>
  The element loop reads no byte beyond the elements of its vector: each \<open>recv\<close> asks
  for what is still missing and returns at most that, and the loop ends with exactly
  \<open>need\<close> bytes.
\<close>

lemma recv_at_most:
  assumes "recv t n w = ((k, bs), w')"
  shows "length bs \<le> n"
  using assms by (auto simp: recv_def split: list.splits rx_item.splits if_splits)

lemma read_payload_exact:
  assumes "length buffer \<le> need" "read_payload srv i need buffer w = (Some b, w')"
  shows "length b = need"
  using assms
proof (induction srv i need buffer w rule: read_payload.induct)
  case (1 srv i need buffer w)
  show ?case
  proof (cases "length buffer < need")
    case False
    with "1.prems" show ?thesis by (simp add: read_payload.simps)
  next
    case True
    obtain k bs w1 where r: "recv (Payload i) (need - length buffer) w = ((k, bs), w1)"
      by (cases "recv (Payload i) (need - length buffer) w") auto
    have le: "length (buffer @ bs) \<le> need" using recv_at_most [OF r] True by simp
    show ?thesis
    proof (cases "k \<le> 0")
      case stop: True
      with True r "1.prems"(2) show ?thesis by (simp add: read_payload.simps)
    next
      case False
      then have "read_payload srv i need (buffer @ bs) w1 = (Some b, w')"
        using True r "1.prems"(2) by (simp add: read_payload.simps)
      with "1.IH" [OF True r [symmetric] refl False le] show ?thesis by simp
    qed
  qed
qed

lemma two_vectors_trace:
  "trace (processVectors example_server (example_world two_vectors)) =
      [RecvEv Count 4 [CHR 0x02, CHR 0x00, CHR 0x00, CHR 0x00],
       RecvEv (Size 0) 4 [CHR 0x04, CHR 0x00, CHR 0x00, CHR 0x00],
       RecvEv (Payload 0) 3 [CHR 0x01, CHR 0x00, CHR 0x02],
       RecvEv (Payload 0) 5 [CHR 0x00, CHR 0x03, CHR 0x00, CHR 0x04, CHR 0x00],
       SendEv (Result 0) [CHR 0x1E, CHR 0x00] 2,
       RecvEv (Size 1) 4 [CHR 0x02, CHR 0x00, CHR 0x00, CHR 0x00],
       RecvEv (Payload 1) 4 [CHR 0xC8, CHR 0x00, CHR 0xC8, CHR 0x00],
       SendEv (Result 1) [CHR 0xFF, CHR 0x7F] 2]"
proof -
  have c1: "calculateSumOfSquares [1, 2, 3, 4] = 30" by code_simp
  have c2: "calculateSumOfSquares [200, 200] = 32767" by code_simp
  show ?thesis
    by (simp add: processVectors_def recv_def example_world_def two_vectors_def
      vector_loop.simps read_payload.simps send_def le_uint32_def int16_bytes_def
      c1 c2 Let_def char_of_def bit_0)
qed

theorem processVectors_result_before_next_vector_witness:
  "trace (processVectors example_server (example_world two_vectors)) =
     trace (example_world two_vectors)
     @ [RecvEv Count 4 [CHR 0x02, CHR 0x00, CHR 0x00, CHR 0x00],
        RecvEv (Size 0) 4 [CHR 0x04, CHR 0x00, CHR 0x00, CHR 0x00],
        RecvEv (Payload 0) 3 [CHR 0x01, CHR 0x00, CHR 0x02],
        RecvEv (Payload 0) 5 [CHR 0x00, CHR 0x03, CHR 0x00, CHR 0x04, CHR 0x00],
        SendEv (Result 0) [CHR 0x1E, CHR 0x00] 2]
     @ RecvEv (Size 1) 4 [CHR 0x02, CHR 0x00, CHR 0x00, CHR 0x00]
     # [RecvEv (Payload 1) 4 [CHR 0xC8, CHR 0x00, CHR 0xC8, CHR 0x00],
        SendEv (Result 1) [CHR 0xFF, CHR 0x7F] 2]
   \<and> reads_vector (Suc 0) (RecvEv (Size 1) 4 [CHR 0x02, CHR 0x00, CHR 0x00, CHR 0x00])
   \<and> (\<exists>s \<in> set [RecvEv Count 4 [CHR 0x02, CHR 0x00, CHR 0x00, CHR 0x00],
        RecvEv (Size 0) 4 [CHR 0x04, CHR 0x00, CHR 0x00, CHR 0x00],
        RecvEv (Payload 0) 3 [CHR 0x01, CHR 0x00, CHR 0x02],
        RecvEv (Payload 0) 5 [CHR 0x00, CHR 0x03, CHR 0x00, CHR 0x04, CHR 0x00],
        SendEv (Result 0) [CHR 0x1E, CHR 0x00] 2]. sends_result 0 s)"
proof -
  have t: "trace (processVectors example_server (example_world two_vectors)) =
     trace (example_world two_vectors)
     @ [RecvEv Count 4 [CHR 0x02, CHR 0x00, CHR 0x00, CHR 0x00],
        RecvEv (Size 0) 4 [CHR 0x04, CHR 0x00, CHR 0x00, CHR 0x00],
        RecvEv (Payload 0) 3 [CHR 0x01, CHR 0x00, CHR 0x02],
        RecvEv (Payload 0) 5 [CHR 0x00, CHR 0x03, CHR 0x00, CHR 0x04, CHR 0x00],
        SendEv (Result 0) [CHR 0x1E, CHR 0x00] 2]
     @ RecvEv (Size 1) 4 [CHR 0x02, CHR 0x00, CHR 0x00, CHR 0x00]
     # [RecvEv (Payload 1) 4 [CHR 0xC8, CHR 0x00, CHR 0xC8, CHR 0x00],
        SendEv (Result 1) [CHR 0xFF, CHR 0x7F] 2]"
    by (simp add: two_vectors_trace) (simp add: example_world_def)
  have r: "reads_vector (Suc 0) (RecvEv (Size 1) 4 [CHR 0x02, CHR 0x00, CHR 0x00, CHR 0x00])"
    by simp
  show ?thesis
    by (intro conjI) (rule t, rule r, rule processVectors_result_before_next_vector [OF t r])
qed

section \<open>Properties of a connection\<close>

lemma processVectors_events: "\<exists>evs. trace (processVectors srv w) = trace w @ evs"
proof -
  obtain k bs w1 where r: "recv Count 4 w = ((k, bs), w1)"
    by (cases "recv Count 4 w") auto
  have t1: "trace w1 = trace w @ [RecvEv Count k bs]" by (rule recv_effect(1) [OF r])
  show ?thesis
  proof (cases "k = 4")
    case False
    then have "processVectors srv w = logError srv ''Failed to read number of vectors'' False w1"
      using r by (simp add: processVectors_def)
    then show ?thesis using t1 by simp
  next
    case True
    then have "processVectors srv w = vector_loop srv (le_uint32 bs) 0 w1"
      using r by (simp add: processVectors_def)
    then show ?thesis using vector_loop_events [of srv "le_uint32 bs" 0 w1] t1 by auto
  qed
qed

lemma split_after:
  assumes "evs @ evs' = pre @ e # post" "e \<notin> set evs"
  shows "\<exists>us. pre = evs @ us"
proof -
  from assms(1) have "(\<exists>us. evs = pre @ us \<and> us @ evs' = e # post)
      \<or> (\<exists>us. evs @ us = pre \<and> evs' = us @ e # post)"
    by (auto simp: append_eq_append_conv2)
  then show ?thesis
  proof (elim disjE exE conjE)
    fix us
    assume a: "evs = pre @ us" "us @ evs' = e # post"
    show ?thesis
    proof (cases us)
      case Nil
      with a show ?thesis by simp
    next
      case (Cons u us')
      with a have "e \<in> set evs" by simp
      with assms(2) show ?thesis by simp
    qed
  next
    fix us
    assume "evs @ us = pre"
    then show ?thesis by blast
  qed
qed

text \<open>
  Claim C9. On every connection \<open>processVectors\<close> is entered only after
  \<open>authenticate\<close> has returned success: when the handshake fails, the connection is
  closed and nothing of the vector exchange is read or written; and every event of the
  vector exchange comes after a successful handshake, which has sent \<open>OK\<close>.
\<close>

theorem handleClient_vectors_after_handshake:
  "(\<not> fst (authenticate srv (logError srv ''New client connection established'' False w))
      \<longrightarrow> (\<exists>evs. trace (handleClient srv w) = trace w @ evs @ [CloseEv]
             \<and> (\<forall>e \<in> set evs. \<not> vector_event e)))
   \<and> (trace (handleClient srv w) = trace w @ pre @ e # post \<and> vector_event e
      \<longrightarrow> fst (authenticate srv (logError srv ''New client connection established'' False w))
          \<and> (\<exists>r. SendEv Ok ''OK'' r \<in> set pre))"
proof -
  define w1 where "w1 = logError srv ''New client connection established'' False w"
  define ok where "ok = fst (authenticate srv w1)"
  define w2 where "w2 = snd (authenticate srv w1)"
  have a: "authenticate srv w1 = (ok, w2)" by (simp add: ok_def w2_def)
  have tw1: "trace w1 = trace w" by (simp add: w1_def)
  from authenticate_events [of srv w1]
  obtain ext where t2: "trace w2 = trace w @ ext"
    and nv: "\<forall>e \<in> set ext. \<not> vector_event e"
    and okev: "ok \<longrightarrow> (\<exists>pre r. ext = pre @ [SendEv Ok ''OK'' r])"
    unfolding ok_def w2_def tw1 by (elim exE conjE)
  have goal: "(\<not> ok \<longrightarrow> (\<exists>evs. trace (handleClient srv w) = trace w @ evs @ [CloseEv]
             \<and> (\<forall>e \<in> set evs. \<not> vector_event e)))
   \<and> (trace (handleClient srv w) = trace w @ pre @ e # post \<and> vector_event e
      \<longrightarrow> ok \<and> (\<exists>r. SendEv Ok ''OK'' r \<in> set pre))"
  proof (cases ok)
    case False
    then have h: "handleClient srv w
        = close (logError srv ''Authentication failed, closing connection'' False w2)"
      using a by (simp add: handleClient_def w1_def [symmetric] Let_def)
    then have t: "trace (handleClient srv w) = trace w @ ext @ [CloseEv]"
      using t2 by simp
    have none: "\<not> vector_event e" if "trace (handleClient srv w) = trace w @ pre @ e # post"
    proof -
      from that [symmetric] t
      have "trace w @ pre @ e # post = trace w @ ext @ [CloseEv]" by (rule trans)
      then have "pre @ e # post = ext @ [CloseEv]" by (simp only: same_append_eq)
      moreover have "e \<in> set (pre @ e # post)" by simp
      ultimately have "e \<in> set (ext @ [CloseEv])" by (simp only:)
      then show ?thesis using nv by auto
    qed
    have "\<exists>evs. trace (handleClient srv w) = trace w @ evs @ [CloseEv]
             \<and> (\<forall>e \<in> set evs. \<not> vector_event e)"
      using t nv by blast
    with none show ?thesis by blast
  next
    case True
    obtain pevs where p: "trace (processVectors srv
          (logError srv ''Client authenticated successfully'' False w2))
        = trace w2 @ pevs"
      using processVectors_events
        [of srv "logError srv ''Client authenticated successfully'' False w2"] by auto
    have h: "handleClient srv w = logError srv ''Client connection closed'' False
        (close (processVectors srv (logError srv ''Client authenticated successfully'' False w2)))"
      using a True by (simp add: handleClient_def w1_def [symmetric] Let_def)
    then have t: "trace (handleClient srv w) = trace w @ ext @ pevs @ [CloseEv]"
      using t2 p by simp
    have "\<exists>r. SendEv Ok ''OK'' r \<in> set pre"
      if "trace (handleClient srv w) = trace w @ pre @ e # post" "vector_event e"
    proof -
      from that(1) [symmetric] t
      have "trace w @ pre @ e # post = trace w @ ext @ pevs @ [CloseEv]" by (rule trans)
      then have "pre @ e # post = ext @ (pevs @ [CloseEv])" by (simp only: same_append_eq)
      then have eq: "ext @ (pevs @ [CloseEv]) = pre @ e # post" by (rule sym)
      have ne: "e \<notin> set ext" using nv that(2) by auto
      from split_after [OF eq ne] obtain us where u: "pre = ext @ us" by (elim exE)
      obtain pre' r where "ext = pre' @ [SendEv Ok ''OK'' r]" using okev True by blast
      with u have "SendEv Ok ''OK'' r \<in> set pre" by simp
      then show ?thesis by (rule exI)
    qed
    with True show ?thesis by blast
  qed
  then show ?thesis unfolding ok_def w1_def .
qed

theorem handleClient_vectors_after_handshake_witness:
  "\<not> fst (authenticate example_server
        (logError example_server ''New client connection established'' False
           (example_world [Data ''mallory''])))
   \<and> (\<exists>evs. trace (handleClient example_server (example_world [Data ''mallory'']))
          = trace (example_world [Data ''mallory'']) @ evs @ [CloseEv]
        \<and> list_all (\<lambda>e. \<not> vector_event e) evs)
   \<and> trace (handleClient example_server (example_world
        [Data ''user'', Data ''cb79139e536dc94b1f38a085176828f96915947d9f9bbefe663dd83b'',
         Data [CHR 0x00, CHR 0x00, CHR 0x00, CHR 0x00]]))
     = [RecvEv Login 4 ''user'', FindEv ''user'', SaltEv ''0123456789ABCDEF'',
        SendEv Salt ''0123456789ABCDEF'' 16,
        RecvEv Response 56 ''cb79139e536dc94b1f38a085176828f96915947d9f9bbefe663dd83b'',
        SendEv Ok ''OK'' 2,
        RecvEv Count 4 [CHR 0x00, CHR 0x00, CHR 0x00, CHR 0x00], CloseEv]
   \<and> fst (authenticate example_server
        (logError example_server ''New client connection established'' False
           (example_world
              [Data ''user'', Data ''cb79139e536dc94b1f38a085176828f96915947d9f9bbefe663dd83b'',
               Data [CHR 0x00, CHR 0x00, CHR 0x00, CHR 0x00]])))"
proof -
  let ?bad = "example_world [Data ''mallory'']"
  let ?good = "example_world
        [Data ''user'', Data ''cb79139e536dc94b1f38a085176828f96915947d9f9bbefe663dd83b'',
         Data [CHR 0x00, CHR 0x00, CHR 0x00, CHR 0x00]]"
  have sv: "map toupper (hex16 0x0123456789ABCDEF) = ''0123456789ABCDEF''"
    by code_simp
  have bad: "\<not> fst (authenticate example_server
        (logError example_server ''New client connection established'' False ?bad))"
    by (simp add: example_world_def example_server_def Server_def authenticate_def recv_def
        find_user_def send_def logError_def c_str_def Let_def)
  have t: "trace (handleClient example_server ?good)
     = trace ?good @ [RecvEv Login 4 ''user'', FindEv ''user'', SaltEv ''0123456789ABCDEF'',
        SendEv Salt ''0123456789ABCDEF'' 16,
        RecvEv Response 56 ''cb79139e536dc94b1f38a085176828f96915947d9f9bbefe663dd83b'',
        SendEv Ok ''OK'' 2]
      @ RecvEv Count 4 [CHR 0x00, CHR 0x00, CHR 0x00, CHR 0x00] # [CloseEv]"
    unfolding handleClient_def authenticate_def
    by (simp add: example_world_def example_server_def Server_def recv_def
        find_user_def send_def logError_def Let_def generateSalt_def sv sha224Hash_def
        c_str_def hex_byte_def hex_digit_def toupper_def char_of_def bit_0
        processVectors_def vector_loop.simps le_uint32_def close_def)
  have ve: "vector_event (RecvEv Count 4 [CHR 0x00, CHR 0x00, CHR 0x00, CHR 0x00])" by simp
  note c9 = handleClient_vectors_after_handshake
  from c9 [of example_server ?bad, THEN conjunct1, THEN mp, OF bad]
  have closed: "\<exists>evs. trace (handleClient example_server ?bad) = trace ?bad @ evs @ [CloseEv]
        \<and> list_all (\<lambda>e. \<not> vector_event e) evs"
    by (simp only: list_all_iff)
  from c9 [of example_server ?good _ _ _, THEN conjunct2, THEN mp, OF conjI [OF t ve]]
  have good: "fst (authenticate example_server
        (logError example_server ''New client connection established'' False ?good))"
    by (rule conjunct1)
  have t': "trace (handleClient example_server ?good)
     = [RecvEv Login 4 ''user'', FindEv ''user'', SaltEv ''0123456789ABCDEF'',
        SendEv Salt ''0123456789ABCDEF'' 16,
        RecvEv Response 56 ''cb79139e536dc94b1f38a085176828f96915947d9f9bbefe663dd83b'',
        SendEv Ok ''OK'' 2,
        RecvEv Count 4 [CHR 0x00, CHR 0x00, CHR 0x00, CHR 0x00], CloseEv]"
    unfolding t by (simp add: example_world_def)
  show ?thesis
    by (intro conjI) (rule bad, rule closed, rule t', rule good)
qed

end
